theory Spec2Isabelle
  imports Complex_Main "HOL-Library.Multiset" "HOL-Library.Product_Lexorder" "HOL-Library.Log_Nat"
begin

section \<open>Numbers\<close>

text \<open>
  A JavaScript number is an IEEE 754 binary64 value: a finite double, one of the two
  infinities, or \<open>NaN\<close>. A finite double is written \<open>Num x\<close> with \<open>x\<close> its exact value, a
  rational. The two zeros \<open>+0\<close> and \<open>-0\<close> are both \<open>Num 0\<close>: they compare equal, and the
  only operation that tells them apart, division by zero, meets only \<open>+0\<close> as a divisor in
  \<open>lorenzData\<close> (its divisors are sums that start at \<open>+0\<close>, and such a sum is never \<open>-0\<close>).
\<close>

datatype jsnum = Num rat | Infinity | NegInfinity | NaN

text \<open>
  Rounding of an exact result to binary64, to nearest with ties to even. \<open>rhe\<close> rounds a
  rational to the nearest integer, a tie going to the even one. \<open>ilog2 a\<close> is the exponent
  of the binade of a positive \<open>a\<close>, the \<open>e\<close> with \<open>2^e \<le> a < 2^(e+1)\<close>, computed from the
  bit lengths of numerator and denominator. \<open>mag a\<close> rounds a magnitude to the grid of its
  binade: the spacing is \<open>2^(e-52)\<close> (53 significant bits), and below \<open>2^(-1022)\<close> the
  spacing stays \<open>2^(-1074)\<close> (subnormal numbers). \<open>fl\<close> restores the sign and overflows to
  an infinity when the rounded magnitude reaches \<open>2^1024\<close>.
\<close>

definition rhe :: "rat \<Rightarrow> int" where
  "rhe y =
     (let f = \<lfloor>y\<rfloor>; d = y - of_int f
      in if d < 1/2 then f else if 1/2 < d then f + 1 else if even f then f else f + 1)"

definition ilog2 :: "rat \<Rightarrow> int" where
  "ilog2 a =
     (case quotient_of a of (n, d) \<Rightarrow>
        let k = bitlen n - bitlen d in if 2 powi k \<le> a then k else k - 1)"

definition mag :: "rat \<Rightarrow> rat" where
  "mag a =
     (if a = 0 then 0
      else let e = max (- 1022) (ilog2 a); q = 2 powi (e - 52)
           in of_int (rhe (a / q)) * q)"

definition fl :: "rat \<Rightarrow> jsnum" where
  "fl x =
     (let r = mag \<bar>x\<bar>
      in if 2 powi 1024 \<le> r then (if 0 < x then Infinity else NegInfinity)
         else Num (sgn x * r))"

text \<open>\<open>Number.isFinite\<close>, and the comparisons \<open>a <= b\<close> and \<open>a < b\<close>: every comparison with
  \<open>NaN\<close> is false.\<close>

fun isFinite :: "jsnum \<Rightarrow> bool" where
  "isFinite (Num x) = True"
| "isFinite Infinity = False"
| "isFinite NegInfinity = False"
| "isFinite NaN = False"

fun js_le :: "jsnum \<Rightarrow> jsnum \<Rightarrow> bool" where
  "js_le NaN b = False"
| "js_le a NaN = False"
| "js_le NegInfinity b = True"
| "js_le a Infinity = True"
| "js_le (Num x) (Num y) = (x \<le> y)"
| "js_le a b = False"

fun js_lt :: "jsnum \<Rightarrow> jsnum \<Rightarrow> bool" where
  "js_lt NaN b = False"
| "js_lt a NaN = False"
| "js_lt (Num x) (Num y) = (x < y)"
| "js_lt (Num x) Infinity = True"
| "js_lt NegInfinity (Num y) = True"
| "js_lt NegInfinity Infinity = True"
| "js_lt a b = False"

text \<open>
  JavaScript \<open>a + b\<close> on numbers: \<open>NaN\<close> is absorbing, infinities of opposite sign give
  \<open>NaN\<close>, an infinity absorbs every finite number, and the sum of two finite numbers is
  the exact sum, rounded.
\<close>

fun js_add :: "jsnum \<Rightarrow> jsnum \<Rightarrow> jsnum" where
  "js_add NaN b = NaN"
| "js_add a NaN = NaN"
| "js_add Infinity NegInfinity = NaN"
| "js_add NegInfinity Infinity = NaN"
| "js_add Infinity b = Infinity"
| "js_add a Infinity = Infinity"
| "js_add NegInfinity b = NegInfinity"
| "js_add a NegInfinity = NegInfinity"
| "js_add (Num x) (Num y) = fl (x + y)"

text \<open>
  JavaScript \<open>x * y\<close> on two finite numbers (the only product of \<open>lorenzData\<close>, \<open>d.mid * c\<close>,
  has two fields of the input as operands): the exact product, rounded.
\<close>

definition js_mul :: "rat \<Rightarrow> rat \<Rightarrow> jsnum" where
  "js_mul x y = fl (x * y)"

text \<open>
  JavaScript \<open>a / b\<close>. A zero divisor does not raise: \<open>0 / 0\<close> is \<open>NaN\<close>, any other finite
  number over zero is the infinity of its sign. An infinity over an infinity is \<open>NaN\<close>, a
  finite number over an infinity is zero, and the quotient of two finite numbers with a
  nonzero divisor is the exact quotient, rounded.
\<close>

fun js_div :: "jsnum \<Rightarrow> jsnum \<Rightarrow> jsnum" where
  "js_div NaN b = NaN"
| "js_div a NaN = NaN"
| "js_div Infinity Infinity = NaN"
| "js_div Infinity NegInfinity = NaN"
| "js_div NegInfinity Infinity = NaN"
| "js_div NegInfinity NegInfinity = NaN"
| "js_div Infinity (Num y) = (if y < 0 then NegInfinity else Infinity)"
| "js_div NegInfinity (Num y) = (if y < 0 then Infinity else NegInfinity)"
| "js_div (Num x) Infinity = Num 0"
| "js_div (Num x) NegInfinity = Num 0"
| "js_div (Num x) (Num y) =
     (if y \<noteq> 0 then fl (x / y)
      else if 0 < x then Infinity
      else if x < 0 then NegInfinity
      else NaN)"

section \<open>The Lorenz derivation\<close>

text \<open>
  A histogram bucket \<open>{mid, count}\<close>, as parsed from JSON: its numbers are finite. The field
  \<open>count\<close> may be absent (or \<open>null\<close>): \<open>None\<close>. A curve point \<open>{p, L}\<close>.
\<close>

record bucket =
  mid :: rat
  count_fld :: "rat option"

record point =
  p :: jsnum
  L :: jsnum

text \<open>\<open>d.count || 0\<close>: a missing count and the falsy number 0 both give 0.\<close>

definition count_or_0 :: "bucket \<Rightarrow> rat" where
  "count_or_0 d = (case count_fld d of None \<Rightarrow> 0 | Some c \<Rightarrow> if c = 0 then 0 else c)"

text \<open>
  \<open>[...amountHistogram].sort((a, b) => a.mid - b.mid)\<close>: a stable sort of a copy of
  the array under the comparator; \<open>x\<close> goes before \<open>y\<close> unless the comparator is
  positive. Only the sign of the difference is used, and the difference of two finite
  doubles has the sign of their exact difference, so the comparator is left exact.
\<close>

definition by_mid :: "bucket \<Rightarrow> bucket \<Rightarrow> rat" where
  "by_mid a b = mid a - mid b"

fun insert_by :: "('a \<Rightarrow> 'a \<Rightarrow> rat) \<Rightarrow> 'a \<Rightarrow> 'a list \<Rightarrow> 'a list" where
  "insert_by cmp x [] = [x]"
| "insert_by cmp x (y # ys) = (if cmp x y \<le> 0 then x # y # ys else y # insert_by cmp x ys)"

definition array_sort :: "('a \<Rightarrow> 'a \<Rightarrow> rat) \<Rightarrow> 'a list \<Rightarrow> 'a list" where
  "array_sort cmp xs = foldr (insert_by cmp) xs []"

text \<open>
  The two \<open>reduce\<close> calls: left folds from 0, each step one addition of doubles
  (and, for the amount, one multiplication).
\<close>

definition totalCount :: "bucket list \<Rightarrow> jsnum" where
  "totalCount sorted' = foldl (\<lambda>s d. js_add s (Num (count_or_0 d))) (Num 0) sorted'"

definition totalAmount :: "bucket list \<Rightarrow> jsnum" where
  "totalAmount sorted' =
     foldl (\<lambda>s d. js_add s (js_mul (mid d) (count_or_0 d))) (Num 0) sorted'"

text \<open>
  The \<open>map\<close> callback with its two mutable accumulators \<open>cumCount\<close> and \<open>cumAmount\<close>,
  threaded through the traversal.
\<close>

fun walk :: "jsnum \<Rightarrow> jsnum \<Rightarrow> jsnum \<Rightarrow> jsnum \<Rightarrow> bucket list \<Rightarrow> point list" where
  "walk tc ta cumCount cumAmount [] = []"
| "walk tc ta cumCount cumAmount (d # ds) =
     (let c = count_or_0 d;
          cumCount' = js_add cumCount (Num c);
          cumAmount' = js_add cumAmount (js_mul (mid d) c)
      in \<lparr>p = js_div cumCount' tc, L = js_div cumAmount' ta\<rparr> # walk tc ta cumCount' cumAmount' ds)"

text \<open>
  \<open>lorenzData\<close>. The argument is the state \<open>amountHistogram\<close>, read as an array of
  buckets; \<open>None\<close> is a nullish value, which \<open>?.\<close> lets through to the early return.
\<close>

definition lorenzData :: "bucket list option \<Rightarrow> point list" where
  "lorenzData amountHistogram =
     (case amountHistogram of
        None \<Rightarrow> []
      | Some h \<Rightarrow>
          if length h = 0 then []
          else
            let sorted' = array_sort by_mid h;
                tc = totalCount sorted';
                ta = totalAmount sorted';
                pts = walk tc ta (Num 0) (Num 0) sorted'
            in [\<lparr>p = Num 0, L = Num 0\<rparr>] @ pts @ [\<lparr>p = Num 1, L = Num 1\<rparr>])"

abbreviation bk :: "rat \<Rightarrow> rat \<Rightarrow> bucket" where
  "bk m c \<equiv> \<lparr>mid = m, count_fld = Some c\<rparr>"

section \<open>The dashboard view\<close>

subsection \<open>Data\<close>

text \<open>
  A response body is parsed JSON. A request of the API client rejects on a network failure,
  on its timeout or on a non-2xx status. A promise is pending, fulfilled or rejected.
\<close>

datatype json = JNull | JBool bool | JNum rat | JStr string | JArr "json list" | JObj "(string \<times> json) list"

datatype error = NetworkError | Timeout | HttpError nat

datatype 'a promise = Pending | Fulfilled 'a | Rejected error

text \<open>The chosen \<open>File\<close> object, identified by its name.\<close>

type_synonym File = string

text \<open>
  The calls of the API client that the view makes, with their query parameters:
  \<open>getTransactions({limit, offset})\<close>, \<open>getFraudByCategory(limit)\<close>,
  \<open>getAvgAmountByCategory(limit)\<close>, \<open>getTopMerchants(limit)\<close>,
  \<open>getAmountHistogram(bins, mode)\<close>, \<open>uploadCSV(file)\<close>.
\<close>

datatype request =
    GetSummary
  | GetCategorySpend
  | GetFraudTrend
  | GetTransactions nat nat
  | GetAmountByGender
  | GetFraudByCategory nat
  | GetAvgAmountByCategory nat
  | GetTopMerchants nat
  | GetAmountHistogram nat string
  | PostIngestCsv File

datatype readyState = CONNECTING | OPEN | CLOSING | CLOSED

text \<open>
  The state of the component \<open>App\<close> (the \<open>useState\<close> cells, in the order of the source, and
  the ref \<open>pollRef\<close>), followed by the part of the browser that the component acts on:
  \<^item> \<open>ws\<close>: the socket created by the mount effect (\<open>None\<close>: the local \<open>ws\<close> is undefined)
    with its \<open>readyState\<close>; its three handlers stay attached for as long as it exists;
  \<^item> \<open>requests\<close>: the HTTP requests issued so far, in order;
  \<^item> \<open>timers\<close>: the active interval timers, as (handle, period in ms); the callback of
    every timer of this component is \<open>refreshAll\<close>;
  \<^item> \<open>next_handle\<close>: the handle that the next \<open>setInterval\<close> returns;
  \<^item> \<open>mounted\<close>: a history variable (not in the source), true between the mount effect and
    its cleanup.
  The form state \<open>newTx\<close> plays no part in what follows and is left out.
\<close>

record app =
  summary :: json
  categorySpend :: json
  fraudTrend :: json
  table :: json
  file' :: "File option"
  amountByGender :: json
  fraudByCategory :: json
  avgAmountByCategory :: json
  topMerchants :: json
  amountHistogram :: json
  pollRef :: "nat option"
  ws :: "readyState option"
  mounted :: bool
  requests :: "request list"
  timers :: "(nat \<times> nat) list"
  next_handle :: nat

text \<open>The initial values of the \<open>useState\<close> and \<open>useRef\<close> calls, in a fresh browser.\<close>

definition initial :: app where
  "initial =
     \<lparr>summary = JNull, categorySpend = JArr [], fraudTrend = JArr [],
      table = JObj [(''count'', JNum 0), (''items'', JArr [])],
      file' = None,
      amountByGender = JArr [], fraudByCategory = JArr [], avgAmountByCategory = JArr [],
      topMerchants = JArr [], amountHistogram = JArr [],
      pollRef = None, ws = None, mounted = False, requests = [], timers = [], next_handle = 1\<rparr>"

subsection \<open>Promise.all\<close>

text \<open>
  The environment decides when and how each of the requests of one refresh settles. A
  settlement is the index of the request in the array given to \<open>Promise.all\<close> with its
  outcome (\<open>Inl\<close>: rejected); a list of settlements is in order of arrival.

  \<open>Promise.all\<close> over \<open>n\<close> promises keeps one slot per promise. While it is pending, a
  rejection rejects it with that reason, and a fulfilment fills its slot and fulfils the
  whole with the array of values once every slot is filled. A settled promise never changes.
\<close>

type_synonym settlement = "nat \<times> (error + json)"

fun all_step ::
  "json option list \<times> json list promise \<Rightarrow> settlement \<Rightarrow> json option list \<times> json list promise" where
  "all_step (slots, Pending) (i, Inl e) = (slots, Rejected e)"
| "all_step (slots, Pending) (i, Inr v) =
     (let slots' = slots[i := Some v]
      in (slots', if list_all (\<lambda>x. x \<noteq> None) slots' then Fulfilled (map the slots') else Pending))"
| "all_step (slots, r) ev = (slots, r)"

definition promise_all :: "nat \<Rightarrow> settlement list \<Rightarrow> json list promise" where
  "promise_all n evs =
     snd (foldl all_step (replicate n None, if n = 0 then Fulfilled [] else Pending) evs)"

subsection \<open>refreshAll\<close>

text \<open>
  The array literal of \<open>refreshAll\<close> calls the nine getters one after the other before
  anything is awaited: all nine requests are issued at once (\<open>refreshAll_issue\<close>). The rest
  of the function runs when the joint promise settles (\<open>refreshAll_resume\<close>): the nine
  setters run only after a fulfilment, with the array destructured by position; a rejection
  leaves the function at the \<open>await\<close>.
\<close>

definition refresh_requests :: "request list" where
  "refresh_requests =
     [GetSummary, GetCategorySpend, GetFraudTrend, GetTransactions 20 0, GetAmountByGender,
      GetFraudByCategory 12, GetAvgAmountByCategory 12, GetTopMerchants 10,
      GetAmountHistogram 20 ''quantile'']"

definition refreshAll_issue :: "app \<Rightarrow> app" where
  "refreshAll_issue st = st\<lparr>requests := requests st @ refresh_requests\<rparr>"

definition refreshAll_resume :: "json list promise \<Rightarrow> app \<Rightarrow> unit promise \<times> app" where
  "refreshAll_resume r st =
     (case r of
        Pending \<Rightarrow> (Pending, st)
      | Rejected e \<Rightarrow> (Rejected e, st)
      | Fulfilled vs \<Rightarrow>
          (Fulfilled (),
           st\<lparr>summary := vs ! 0, categorySpend := vs ! 1, fraudTrend := vs ! 2, table := vs ! 3,
              amountByGender := vs ! 4, fraudByCategory := vs ! 5, avgAmountByCategory := vs ! 6,
              topMerchants := vs ! 7, amountHistogram := vs ! 8\<rparr>))"

definition refreshAll :: "settlement list \<Rightarrow> app \<Rightarrow> unit promise \<times> app" where
  "refreshAll evs st =
     refreshAll_resume (promise_all (length refresh_requests) evs) (refreshAll_issue st)"

text \<open>The nine datasets of the view state, in the order of the array of \<open>refreshAll\<close>.\<close>

definition datasets :: "app \<Rightarrow> json list" where
  "datasets st =
     [summary st, categorySpend st, fraudTrend st, table st, amountByGender st,
      fraudByCategory st, avgAmountByCategory st, topMerchants st, amountHistogram st]"

subsection \<open>Live updates and the polling fallback\<close>

text \<open>
  \<open>if (pollRef.current)\<close>: \<open>null\<close> and the number 0 are falsy. \<open>setInterval\<close> returns a
  fresh handle and registers the timer; \<open>clearInterval\<close> removes it.
\<close>

definition truthy :: "nat option \<Rightarrow> bool" where
  "truthy r = (case r of None \<Rightarrow> False | Some h \<Rightarrow> h \<noteq> 0)"

definition setInterval :: "nat \<Rightarrow> app \<Rightarrow> nat \<times> app" where
  "setInterval ms st =
     (next_handle st,
      st\<lparr>timers := timers st @ [(next_handle st, ms)], next_handle := next_handle st + 1\<rparr>)"

definition clearInterval :: "nat \<Rightarrow> app \<Rightarrow> app" where
  "clearInterval h st = st\<lparr>timers := filter (\<lambda>t. fst t \<noteq> h) (timers st)\<rparr>"

definition startPolling :: "app \<Rightarrow> app" where
  "startPolling st =
     (if truthy (pollRef st) then st
      else case setInterval 5000 st of (h, st') \<Rightarrow> st'\<lparr>pollRef := Some h\<rparr>)"

text \<open>
  The body of the mount effect: a refresh is started; then \<open>new WebSocket(wsUrl)\<close> either
  returns a socket, which gets its three handlers, or throws (\<open>ctor_ok\<close> false), and the
  \<open>catch\<close> starts polling. The cleanup closes the socket if there is one and clears the
  timer if \<open>pollRef.current\<close> is set; it neither detaches the handlers nor resets the ref.
\<close>

definition mount_effect :: "bool \<Rightarrow> app \<Rightarrow> app" where
  "mount_effect ctor_ok st =
     (let st1 = refreshAll_issue (st\<lparr>mounted := True\<rparr>)
      in if ctor_ok then st1\<lparr>ws := Some CONNECTING\<rparr> else startPolling st1)"

definition ws_close :: "readyState \<Rightarrow> readyState" where
  "ws_close r = (if r = CLOSED then CLOSED else CLOSING)"

definition cleanup :: "app \<Rightarrow> app" where
  "cleanup st =
     (let st1 = (case ws st of None \<Rightarrow> st | Some r \<Rightarrow> st\<lparr>ws := Some (ws_close r)\<rparr>);
          st2 = (if truthy (pollRef st1) then clearInterval (the (pollRef st1)) st1 else st1)
      in st2\<lparr>mounted := False\<rparr>)"

text \<open>
  What can happen to a mounted component: the mount itself, the events of the socket
  (\<open>onmessage\<close> starts a refresh, \<open>onerror\<close> and \<open>onclose\<close> call \<open>startPolling\<close>; there is no
  \<open>onopen\<close> handler), the firing of an interval timer (which starts a refresh if the timer
  is still active) and the unmount. The completion of a refresh touches neither the ref
  nor the timers and is not an event here.
\<close>

datatype event = Mount bool | WsOpen | WsMessage | WsError | WsClose | Tick nat | Unmount

fun step :: "app \<Rightarrow> event \<Rightarrow> app" where
  "step st (Mount ctor_ok) = mount_effect ctor_ok st"
| "step st WsOpen = (if ws st = Some CONNECTING then st\<lparr>ws := Some OPEN\<rparr> else st)"
| "step st WsMessage = (case ws st of None \<Rightarrow> st | Some r \<Rightarrow> refreshAll_issue st)"
| "step st WsError = (case ws st of None \<Rightarrow> st | Some r \<Rightarrow> startPolling st)"
| "step st WsClose =
     (case ws st of None \<Rightarrow> st | Some r \<Rightarrow> startPolling (st\<lparr>ws := Some CLOSED\<rparr>))"
| "step st (Tick h) = (if h \<in> fst ` set (timers st) then refreshAll_issue st else st)"
| "step st Unmount = cleanup st"

definition run :: "event list \<Rightarrow> app \<Rightarrow> app" where
  "run evs st = foldl step st evs"

subsection \<open>Upload\<close>

text \<open>
  \<open>onUpload\<close>: nothing happens without a file; otherwise the upload request is issued and
  awaited (\<open>up\<close> is how it settles), and after a fulfilment the file state is reset and a
  full refresh follows. The button is rendered with \<open>disabled={!file}\<close>, and a disabled
  button does not call its click handler.
\<close>

definition onUpload :: "json promise \<Rightarrow> settlement list \<Rightarrow> app \<Rightarrow> unit promise \<times> app" where
  "onUpload up evs st =
     (case file' st of
        None \<Rightarrow> (Fulfilled (), st)
      | Some f \<Rightarrow>
          let st1 = st\<lparr>requests := requests st @ [PostIngestCsv f]\<rparr>
          in case up of
               Pending \<Rightarrow> (Pending, st1)
             | Rejected e \<Rightarrow> (Rejected e, st1)
             | Fulfilled r \<Rightarrow> refreshAll evs (st1\<lparr>file' := None\<rparr>))"

definition upload_disabled :: "app \<Rightarrow> bool" where
  "upload_disabled st = (file' st = None)"

definition click_upload :: "json promise \<Rightarrow> settlement list \<Rightarrow> app \<Rightarrow> app" where
  "click_upload up evs st = (if upload_disabled st then st else snd (onUpload up evs st))"

section \<open>Notions used in the proofs\<close>

text \<open>The two running sums of the walk after the buckets \<open>ds\<close>, from given start values.\<close>

definition runCount :: "jsnum \<Rightarrow> bucket list \<Rightarrow> jsnum" where
  "runCount cc ds = foldl (\<lambda>s d. js_add s (Num (count_or_0 d))) cc ds"

definition runAmount :: "jsnum \<Rightarrow> bucket list \<Rightarrow> jsnum" where
  "runAmount ca ds = foldl (\<lambda>s d. js_add s (js_mul (mid d) (count_or_0 d))) ca ds"

text \<open>The running sums of a list of numbers, from a start value.\<close>

fun cumj :: "jsnum \<Rightarrow> jsnum list \<Rightarrow> jsnum list" where
  "cumj a [] = []"
| "cumj a (v # vs) = js_add a v # cumj (js_add a v) vs"

text \<open>What the derivation reads of a bucket: its midpoint and its effective count.\<close>

definition bucket_key :: "bucket \<Rightarrow> rat \<times> rat" where
  "bucket_key d = (mid d, count_or_0 d)"


definition nonneg_val :: "jsnum \<Rightarrow> bool" where
  "nonneg_val v = (case v of Num c \<Rightarrow> 0 \<le> c | Infinity \<Rightarrow> True | _ \<Rightarrow> False)"

text \<open>
  The invariant of \<open>Promise.all\<close> after the settlements \<open>evs\<close>: every filled slot holds the
  value of a fulfilment that arrived; while pending, no rejection has arrived, every
  arrived fulfilment is in its slot and some slot is empty; a fulfilled result is the array
  of all slots; a rejection reason is that of a rejection that arrived.
\<close>

definition all_inv :: "nat \<Rightarrow> settlement list \<Rightarrow> json option list \<times> json list promise \<Rightarrow> bool" where
  "all_inv n evs s =
     (case s of (slots, res) \<Rightarrow>
        length slots = n
      \<and> (\<forall>i v. i < n \<longrightarrow> slots ! i = Some v \<longrightarrow> (i, Inr v) \<in> set evs)
      \<and> (res = Pending \<longrightarrow>
            (\<forall>ev\<in>set evs. \<exists>v. snd ev = Inr v) \<and> (\<forall>ev\<in>set evs. slots ! fst ev \<noteq> None)
            \<and> \<not> list_all (\<lambda>x. x \<noteq> None) slots)
      \<and> (\<forall>vs. res = Fulfilled vs \<longrightarrow> list_all (\<lambda>x. x \<noteq> None) slots \<and> vs = map the slots)
      \<and> (\<forall>e. res = Rejected e \<longrightarrow> (\<exists>i. (i, Inl e) \<in> set evs)))"

text \<open>
  The invariant of the polling fallback: the ref is set exactly when the one timer of the
  mount has been created, with handle 1 and period 5000.
\<close>

definition poll_inv :: "app \<Rightarrow> bool" where
  "poll_inv st =
     (case pollRef st of
        None \<Rightarrow> next_handle st = 1 \<and> timers st = []
      | Some h \<Rightarrow> h = 1 \<and> next_handle st = 2 \<and> (timers st = [] \<or> timers st = [(1, 5000)]))"

section \<open>Facts about rounding\<close>

text \<open>Powers of two with integer exponents.\<close>

lemma p2_less_iff: "(2::rat) powi m < 2 powi n \<longleftrightarrow> m < n"
proof
  assume "(2::rat) powi m < 2 powi n"
  show "m < n"
  proof (rule ccontr)
    assume "\<not> m < n"
    then have "(2::rat) powi n \<le> 2 powi m" by (intro power_int_increasing) simp_all
    with \<open>(2::rat) powi m < 2 powi n\<close> show False by simp
  qed
next
  assume "m < n"
  then show "(2::rat) powi m < 2 powi n" by (intro power_int_strict_increasing) simp_all
qed

lemma p2_le_iff: "(2::rat) powi m \<le> 2 powi n \<longleftrightarrow> m \<le> n"
  using p2_less_iff [of n m] by (simp add: not_less [symmetric])

lemma p2_pos: "0 < (2::rat) powi k"
  by simp

lemma p2_add: "(2::rat) powi (m + n) = 2 powi m * 2 powi n"
  by (simp add: power_int_add)

lemma p2_diff: "(2::rat) powi (m - n) = 2 powi m / 2 powi n"
  by (simp add: power_int_diff)

lemma rhe_of_int: "rhe (of_int n) = n"
  by (simp add: rhe_def)

lemma rhe_bounds: "\<lfloor>y\<rfloor> \<le> rhe y \<and> rhe y \<le> \<lfloor>y\<rfloor> + 1"
  by (simp add: rhe_def Let_def)

lemma rhe_mono:
  assumes "x \<le> y"
  shows "rhe x \<le> rhe y"
proof (cases "\<lfloor>x\<rfloor> < \<lfloor>y\<rfloor>")
  case True
  then show ?thesis using rhe_bounds [of x] rhe_bounds [of y] by linarith
next
  case False
  with assms have eq: "\<lfloor>x\<rfloor> = \<lfloor>y\<rfloor>" using floor_mono [of x y] by linarith
  have "x - of_int \<lfloor>y\<rfloor> \<le> y - of_int \<lfloor>y\<rfloor>" using assms by simp
  then show ?thesis by (auto simp: rhe_def Let_def eq)
qed

lemma rhe_ge: "of_int m \<le> y \<Longrightarrow> m \<le> rhe y"
  using rhe_mono [of "of_int m" y] by (simp add: rhe_of_int)

lemma rhe_le: "y \<le> of_int m \<Longrightarrow> rhe y \<le> m"
  using rhe_mono [of y "of_int m"] by (simp add: rhe_of_int)

lemma ilog2_bounds:
  assumes "0 < a"
  shows "2 powi (ilog2 a) \<le> a \<and> a < 2 powi (ilog2 a + 1)"
proof -
  obtain n d where q: "quotient_of a = (n, d)" by (cases "quotient_of a")
  have d: "0 < d" using q by (rule quotient_of_denom_pos)
  have a: "a = of_int n / of_int d" using q by (rule quotient_of_div)
  have n: "0 < n" using assms d unfolding a by (simp add: zero_less_divide_iff)
  let ?k = "bitlen n - bitlen d"
  have bn: "1 \<le> bitlen n" "1 \<le> bitlen d" using n d bitlen_eq_zero_iff [of n] bitlen_eq_zero_iff [of d] bitlen_nonneg [of n] bitlen_nonneg [of d]
    by linarith+
  from bitlen_bounds [OF n] have "(2::int) ^ nat (bitlen n - 1) \<le> n" "n < 2 ^ nat (bitlen n)" by simp_all
  then have "(of_int ((2::int) ^ nat (bitlen n - 1)) :: rat) \<le> of_int n" "(of_int n :: rat) < of_int (2 ^ nat (bitlen n))"
    by (simp_all only: of_int_le_iff of_int_less_iff)
  then have nb: "(2::rat) powi (bitlen n - 1) \<le> of_int n" "(of_int n :: rat) < 2 powi (bitlen n)"
    using bn by (simp_all add: power_int_def)
  from bitlen_bounds [OF d] have "(2::int) ^ nat (bitlen d - 1) \<le> d" "d < 2 ^ nat (bitlen d)" by simp_all
  then have "(of_int ((2::int) ^ nat (bitlen d - 1)) :: rat) \<le> of_int d" "(of_int d :: rat) < of_int (2 ^ nat (bitlen d))"
    by (simp_all only: of_int_le_iff of_int_less_iff)
  then have db: "(2::rat) powi (bitlen d - 1) \<le> of_int d" "(of_int d :: rat) < 2 powi (bitlen d)"
    using bn by (simp_all add: power_int_def)
  have dpos: "(0::rat) < of_int d" using d by simp
  have npos: "(0::rat) < of_int n" using n by simp
  have up: "a < 2 powi (?k + 1)"
  proof -
    have "a < 2 powi (bitlen n) / of_int d" unfolding a using nb(2) dpos by (simp add: divide_strict_right_mono)
    also have "\<dots> \<le> 2 powi (bitlen n) / 2 powi (bitlen d - 1)"
      using db(1) dpos by (intro divide_left_mono) (simp_all add: zero_less_mult_iff)
    also have "\<dots> = 2 powi (?k + 1)" by (simp add: p2_diff [symmetric] algebra_simps)
    finally show ?thesis .
  qed
  have lo: "2 powi (?k - 1) < a"
  proof -
    have "2 powi (?k - 1) = (2::rat) powi (bitlen n - 1) / 2 powi (bitlen d)"
      by (simp add: p2_diff [symmetric] algebra_simps)
    also have "\<dots> < 2 powi (bitlen n - 1) / of_int d"
      using db(2) dpos by (intro divide_strict_left_mono) (simp_all add: zero_less_mult_iff)
    also have "\<dots> \<le> a" unfolding a using nb(1) dpos by (simp add: divide_right_mono)
    finally show ?thesis .
  qed
  show ?thesis
  proof (cases "2 powi ?k \<le> a")
    case True
    then have "ilog2 a = ?k" by (simp add: ilog2_def q Let_def)
    with True up show ?thesis by simp
  next
    case False
    then have "ilog2 a = ?k - 1" by (simp add: ilog2_def q Let_def)
    with False lo show ?thesis by simp
  qed
qed

lemma ilog2_unique:
  assumes "0 < a" and "2 powi e \<le> a" and "a < 2 powi (e + 1)"
  shows "ilog2 a = e"
proof -
  from ilog2_bounds [OF assms(1)] have b: "2 powi (ilog2 a) \<le> a" "a < 2 powi (ilog2 a + 1)" by simp_all
  from b(1) assms(3) have "(2::rat) powi (ilog2 a) < 2 powi (e + 1)" by simp
  then have 1: "ilog2 a < e + 1" by (simp only: p2_less_iff)
  from assms(2) b(2) have "(2::rat) powi e < 2 powi (ilog2 a + 1)" by simp
  then have 2: "e < ilog2 a + 1" by (simp only: p2_less_iff)
  from 1 2 show ?thesis by simp
qed

lemma ilog2_mono:
  assumes "0 < a" and "a \<le> b"
  shows "ilog2 a \<le> ilog2 b"
proof -
  have "0 < b" using assms by simp
  from ilog2_bounds [OF assms(1)] ilog2_bounds [OF this] assms(2)
  have "(2::rat) powi (ilog2 a) < 2 powi (ilog2 b + 1)" by simp
  then have "ilog2 a < ilog2 b + 1" by (simp only: p2_less_iff)
  then show ?thesis by simp
qed

lemma p2_53: "of_int (2 ^ 53) * (2::rat) powi (e - 52) = 2 powi (e + 1)"
proof -
  have "(of_int (2 ^ 53) :: rat) = 2 powi 53" by simp
  then have "of_int (2 ^ 53) * (2::rat) powi (e - 52) = 2 powi (53 + (e - 52))"
    by (simp only: p2_add)
  then show ?thesis by (simp add: algebra_simps)
qed

lemma p2_52: "of_int (2 ^ 52) * (2::rat) powi (e - 52) = 2 powi e"
proof -
  have "(of_int (2 ^ 52) :: rat) = 2 powi 52" by simp
  then have "of_int (2 ^ 52) * (2::rat) powi (e - 52) = 2 powi (52 + (e - 52))"
    by (simp only: p2_add)
  then show ?thesis by simp
qed

text \<open>The rounded magnitude written out for a positive argument.\<close>

lemma mag_pos:
  "0 < a \<Longrightarrow> mag a = of_int (rhe (a / 2 powi (max (- 1022) (ilog2 a) - 52))) * 2 powi (max (- 1022) (ilog2 a) - 52)"
  by (simp add: mag_def Let_def)

lemma mag_0: "mag 0 = 0"
  by (simp add: mag_def)

lemma mag_nonneg: "0 \<le> a \<Longrightarrow> 0 \<le> mag a"
proof (cases "a = 0")
  case True
  then show ?thesis by (simp add: mag_0)
next
  case False
  assume "0 \<le> a"
  with False have a: "0 < a" by simp
  let ?q = "(2::rat) powi (max (- 1022) (ilog2 a) - 52)"
  have "of_int 0 \<le> a / ?q" using a by simp
  then have "0 \<le> rhe (a / ?q)" by (rule rhe_ge)
  then show ?thesis by (simp add: mag_pos [OF a])
qed

lemma mag_upper:
  assumes "0 < a"
  shows "mag a \<le> 2 powi (max (- 1022) (ilog2 a) + 1)"
proof -
  let ?e = "max (- 1022) (ilog2 a)"
  let ?q = "(2::rat) powi (?e - 52)"
  have "a < 2 powi (ilog2 a + 1)" using ilog2_bounds [OF assms] by simp
  also have "\<dots> \<le> 2 powi (?e + 1)" by (simp add: p2_le_iff)
  finally have "a < of_int (2 ^ 53) * ?q" by (simp only: p2_53)
  then have "a / ?q \<le> of_int (2 ^ 53)" by (simp add: pos_divide_le_eq)
  then have "rhe (a / ?q) \<le> 2 ^ 53" by (rule rhe_le)
  then have "(of_int (rhe (a / ?q)) :: rat) \<le> of_int (2 ^ 53)" by (simp only: of_int_le_iff)
  then have "of_int (rhe (a / ?q)) * ?q \<le> of_int (2 ^ 53) * ?q"
    by (intro mult_right_mono) simp_all
  then show ?thesis by (simp only: mag_pos [OF assms] p2_53)
qed

lemma mag_lower:
  assumes "0 < a" and "- 1022 \<le> ilog2 a"
  shows "2 powi (ilog2 a) \<le> mag a"
proof -
  have e: "max (- 1022) (ilog2 a) = ilog2 a" using assms(2) by simp
  let ?q = "(2::rat) powi (ilog2 a - 52)"
  have "of_int (2 ^ 52) * ?q \<le> a" using ilog2_bounds [OF assms(1)] by (simp only: p2_52)
  then have "of_int (2 ^ 52) \<le> a / ?q" by (simp add: pos_le_divide_eq)
  then have "2 ^ 52 \<le> rhe (a / ?q)" by (rule rhe_ge)
  then have "(of_int (2 ^ 52) :: rat) \<le> of_int (rhe (a / ?q))" by (simp only: of_int_le_iff)
  then have "of_int (2 ^ 52) * ?q \<le> of_int (rhe (a / ?q)) * ?q"
    by (intro mult_right_mono) simp_all
  then show ?thesis by (simp only: mag_pos [OF assms(1)] e p2_52)
qed

lemma mag_mono:
  assumes "0 \<le> a" and "a \<le> b"
  shows "mag a \<le> mag b"
proof (cases "a = 0")
  case True
  then show ?thesis using mag_nonneg [of b] assms by (simp add: mag_0)
next
  case False
  with assms have a: "0 < a" and b: "0 < b" by simp_all
  let ?ea = "max (- 1022) (ilog2 a)"
  let ?eb = "max (- 1022) (ilog2 b)"
  have le: "?ea \<le> ?eb" using ilog2_mono [OF a assms(2)] by simp
  show ?thesis
  proof (cases "?ea = ?eb")
    case True
    let ?q = "(2::rat) powi (?ea - 52)"
    have "a / ?q \<le> b / ?q" using assms(2) by (simp add: divide_right_mono)
    then have "rhe (a / ?q) \<le> rhe (b / ?q)" by (rule rhe_mono)
    then have "(of_int (rhe (a / ?q)) :: rat) \<le> of_int (rhe (b / ?q))" by (simp only: of_int_le_iff)
    then have "of_int (rhe (a / ?q)) * ?q \<le> of_int (rhe (b / ?q)) * ?q"
      by (intro mult_right_mono) simp_all
    then show ?thesis by (simp only: mag_pos [OF a] mag_pos [OF b] True [symmetric])
  next
    case False
    with le have lt: "?ea < ?eb" by linarith
    then have eb: "- 1022 \<le> ilog2 b" "?eb = ilog2 b" by (simp_all add: max_def split: if_splits)
    have "mag a \<le> 2 powi (?ea + 1)" by (rule mag_upper [OF a])
    also have "\<dots> \<le> 2 powi (ilog2 b)" using lt eb(2) by (simp only: p2_le_iff)
    also have "\<dots> \<le> mag b" by (rule mag_lower [OF b eb(1)])
    finally show ?thesis .
  qed
qed

text \<open>Every number \<open>m * 2^k\<close> with a 53-bit \<open>m\<close> and \<open>k\<close> not below -1074 is on the grid.\<close>

lemma mag_fix:
  assumes "0 \<le> m" and "m < 2 ^ 53" and "- 1074 \<le> k"
  shows "mag (of_int m * 2 powi k) = of_int m * 2 powi k"
proof (cases "m = 0")
  case True
  then show ?thesis by (simp add: mag_0)
next
  case False
  let ?a = "of_int m * (2::rat) powi k"
  from False assms(1) have m: "0 < m" by simp
  then have a: "0 < ?a" by simp
  let ?e = "max (- 1022) (ilog2 ?a)"
  let ?j = "k - (?e - 52)"
  have "(of_int m :: rat) < of_int (2 ^ 53)" using assms(2) by (simp only: of_int_less_iff)
  then have "?a < of_int (2 ^ 53) * 2 powi k" by (intro mult_strict_right_mono) simp_all
  also have "\<dots> = 2 powi (53 + k)" by (simp add: p2_add)
  finally have "2 powi (ilog2 ?a) < (2::rat) powi (53 + k)" using ilog2_bounds [OF a] by simp
  then have "ilog2 ?a < 53 + k" by (simp only: p2_less_iff)
  with assms(3) have j: "0 \<le> ?j" by simp
  have "?a / 2 powi (?e - 52) = of_int m * 2 powi ?j" by (simp add: p2_diff)
  also have "\<dots> = of_int (m * 2 ^ nat ?j)" using j by (simp add: power_int_def)
  finally have "rhe (?a / 2 powi (?e - 52)) = m * 2 ^ nat ?j" by (simp only: rhe_of_int)
  then have "mag ?a = of_int (m * 2 ^ nat ?j) * 2 powi (?e - 52)" by (simp only: mag_pos [OF a])
  also have "\<dots> = of_int m * (2 powi ?j * 2 powi (?e - 52))" using j by (simp add: power_int_def)
  also have "\<dots> = ?a" by (simp only: p2_add [symmetric]) simp
  finally show ?thesis .
qed

lemma mag_form:
  assumes "0 \<le> a"
  shows "\<exists>m k. mag a = of_int m * 2 powi k \<and> 0 \<le> m \<and> m < 2 ^ 53 \<and> - 1074 \<le> k"
proof (cases "a = 0")
  case True
  then show ?thesis by (intro exI [of _ 0]) (simp add: mag_0)
next
  case False
  with assms have a: "0 < a" by simp
  let ?e = "max (- 1022) (ilog2 a)"
  let ?q = "(2::rat) powi (?e - 52)"
  let ?N = "rhe (a / ?q)"
  have N0: "0 \<le> ?N" using a by (intro rhe_ge) simp
  have "mag a \<le> 2 powi (?e + 1)" by (rule mag_upper [OF a])
  then have "of_int ?N * ?q \<le> of_int (2 ^ 53) * ?q" by (simp only: mag_pos [OF a] p2_53)
  then have "(of_int ?N :: rat) \<le> of_int (2 ^ 53)" by (simp only: mult_le_cancel_right_pos [OF p2_pos])
  then have N53: "?N \<le> 2 ^ 53" by (simp only: of_int_le_iff)
  show ?thesis
  proof (cases "?N = 2 ^ 53")
    case True
    have "mag a = of_int ?N * ?q" by (rule mag_pos [OF a])
    also have "\<dots> = of_int (2 ^ 53) * ?q" by (simp only: True)
    also have "\<dots> = 2 powi (?e + 1)" by (rule p2_53)
    also have "\<dots> = of_int (2 ^ 52) * 2 powi ((?e + 1) - 52)" by (rule p2_52 [symmetric])
    finally have "mag a = of_int (2 ^ 52) * 2 powi ((?e + 1) - 52)" .
    moreover have "- 1074 \<le> ?e + 1 - 52" by simp
    moreover have "(0::int) \<le> 2 ^ 52" "(2::int) ^ 52 < 2 ^ 53" by simp_all
    ultimately show ?thesis by blast
  next
    case False
    with N53 have "?N < 2 ^ 53" by linarith
    moreover have "mag a = of_int ?N * ?q" by (rule mag_pos [OF a])
    moreover have "- 1074 \<le> ?e - 52" by simp
    ultimately show ?thesis using N0 by blast
  qed
qed

lemma mag_idem:
  assumes "0 \<le> a"
  shows "mag (mag a) = mag a"
proof -
  from mag_form [OF assms] obtain m k
    where "mag a = of_int m * 2 powi k" "0 \<le> m" "m < 2 ^ 53" "- 1074 \<le> k" by blast
  then show ?thesis using mag_fix [of m k] by simp
qed

text \<open>Rounding fixes 0 and 1, is monotone, and leaves its own results unchanged.\<close>

lemma fl_0: "fl 0 = Num 0"
  by (simp add: fl_def mag_0)

lemma fl_1: "fl 1 = Num 1"
  using mag_fix [of 1 0] by (simp add: fl_def)

lemma fl_mono:
  assumes "x \<le> y"
  shows "js_le (fl x) (fl y)"
proof -
  have nn: "0 \<le> mag \<bar>x\<bar>" "0 \<le> mag \<bar>y\<bar>" by (simp_all add: mag_nonneg)
  consider "0 \<le> x" | "x < 0" "0 \<le> y" | "y < 0" using assms by linarith
  then show ?thesis
  proof cases
    case 1
    then have le: "mag \<bar>x\<bar> \<le> mag \<bar>y\<bar>" using assms by (intro mag_mono) simp_all
    show ?thesis
    proof (cases "x = 0")
      case True
      then show ?thesis using nn 1 assms by (auto simp: fl_def Let_def mag_0 sgn_if)
    next
      case False
      with 1 assms have "0 < x" "0 < y" by simp_all
      then show ?thesis using le by (auto simp: fl_def Let_def sgn_if)
    qed
  next
    case 2
    then show ?thesis using nn by (auto simp: fl_def Let_def sgn_if mag_0)
  next
    case 3
    then have "x < 0" using assms by simp
    have le: "mag \<bar>y\<bar> \<le> mag \<bar>x\<bar>" using assms 3 by (intro mag_mono) simp_all
    show ?thesis using le 3 \<open>x < 0\<close> by (auto simp: fl_def Let_def sgn_if)
  qed
qed

lemma fl_idem:
  assumes "fl x = Num y"
  shows "fl y = Num y"
proof -
  let ?r = "mag \<bar>x\<bar>"
  from assms have r: "\<not> 2 powi 1024 \<le> ?r" and y: "y = sgn x * ?r"
    by (auto simp: fl_def Let_def split: if_splits)
  have nn: "0 \<le> ?r" by (simp add: mag_nonneg)
  have ay: "\<bar>y\<bar> = ?r"
  proof (cases "x = 0")
    case True
    then show ?thesis by (simp add: y mag_0)
  next
    case False
    then show ?thesis using nn by (simp add: y abs_mult)
  qed
  have m: "mag \<bar>y\<bar> = ?r" unfolding ay by (rule mag_idem) simp
  have s: "sgn y * ?r = y"
  proof (cases "?r = 0")
    case True
    then show ?thesis by (simp add: y)
  next
    case False
    with nn have "0 < ?r" by simp
    then have "sgn y = sgn x" by (simp add: y sgn_mult)
    then show ?thesis by (simp add: y)
  qed
  show ?thesis using r by (simp add: fl_def Let_def m s)
qed

lemma fl_overflow:
  assumes "2 powi 1024 \<le> x"
  shows "fl x = Infinity"
proof -
  have pos: "(0::rat) < 2 powi 1024" by simp
  with assms have x: "0 < x" by linarith
  have "mag (of_int (2 ^ 52) * 2 powi 972) = of_int (2 ^ 52) * (2::rat) powi 972"
    by (rule mag_fix) simp_all
  moreover have "of_int (2 ^ 52) * (2::rat) powi 972 = 2 powi 1024"
    using p2_52 [of 1024] by simp
  ultimately have "mag (2 powi 1024) = (2::rat) powi 1024" by simp
  moreover have "mag (2 powi 1024) \<le> mag x" using assms by (intro mag_mono) simp_all
  ultimately have "2 powi 1024 \<le> mag \<bar>x\<bar>" using x by simp
  then show ?thesis using x by (simp add: fl_def Let_def)
qed

lemma fl_nonneg:
  assumes "0 \<le> x"
  shows "fl x = Infinity \<or> (\<exists>y. fl x = Num y \<and> 0 \<le> y)"
  using assms mag_nonneg [of "\<bar>x\<bar>"] by (auto simp: fl_def Let_def sgn_if mag_0)

lemma fl_minus:
  "fl (- x) = (case fl x of Num y \<Rightarrow> Num (- y) | Infinity \<Rightarrow> NegInfinity
                | NegInfinity \<Rightarrow> Infinity | NaN \<Rightarrow> NaN)"
  using mag_nonneg [of "\<bar>x\<bar>"] by (auto simp: fl_def Let_def sgn_if mag_0)

lemma fl_fix:
  assumes "0 \<le> m" and "m < 2 ^ 53" and "- 1074 \<le> k" and "k \<le> 971"
  shows "fl (of_int m * 2 powi k) = Num (of_int m * 2 powi k)"
proof -
  let ?a = "of_int m * (2::rat) powi k"
  have nn: "0 \<le> ?a" using assms(1) by simp
  have m: "mag \<bar>?a\<bar> = ?a" using nn mag_fix [OF assms(1-3)] by simp
  have "(of_int m :: rat) < of_int (2 ^ 53)" using assms(2) by (simp only: of_int_less_iff)
  then have "?a < of_int (2 ^ 53) * 2 powi k" by (intro mult_strict_right_mono) simp_all
  also have "\<dots> = 2 powi (53 + k)" by (simp add: p2_add)
  also have "\<dots> \<le> 2 powi 1024" using assms(4) by (simp only: p2_le_iff)
  finally have lt: "\<not> 2 powi 1024 \<le> ?a" by simp
  have "sgn ?a * ?a = ?a" using nn by (simp add: sgn_if)
  then show ?thesis using lt by (simp only: fl_def Let_def m if_False)
qed

lemma fl_numeral: "(numeral w :: int) < 2 ^ 53 \<Longrightarrow> fl (numeral w) = Num (numeral w)"
  using fl_fix [of "numeral w" 0] by simp

lemma fl_half: "fl (1 / 2) = Num (1 / 2)"
  using fl_fix [of 1 "- 1"] by (simp add: power_int_minus_divide)

lemma fl_quarter: "fl (1 / 4) = Num (1 / 4)"
  using fl_fix [of 1 "- 2"] by (simp add: power_int_minus_divide)

lemma fl_three_quarters: "fl (3 / 4) = Num (3 / 4)"
  using fl_fix [of 3 "- 2"] by (simp add: power_int_minus_divide)

text \<open>Evaluating a rounding whose binade is known.\<close>

lemma fl_eval:
  assumes "0 < a" and "2 powi e \<le> a" and "a < 2 powi (e + 1)" and "- 1022 \<le> e"
    and "of_int (rhe (a / 2 powi (e - 52))) * 2 powi (e - 52) = r" and "r < 2 powi 1024"
  shows "fl a = Num r"
proof -
  have e: "max (- 1022) (ilog2 a) = e" using ilog2_unique [OF assms(1-3)] assms(4) by simp
  have "mag \<bar>a\<bar> = r" using assms(1,5) by (simp add: mag_pos e)
  then show ?thesis using assms(1,6) by (simp add: fl_def Let_def sgn_if)
qed

text \<open>Rounding at work: \<open>2^53 + 1\<close> is not a double, and the tie goes to the even neighbour.\<close>

lemma js_add_rounds: "js_add (Num (2 ^ 53)) (Num 1) = Num (2 ^ 53)"
proof -
  have f: "\<lfloor>9007199254740993 / 2 :: rat\<rfloor> = 4503599627370496"
    by (rule floor_unique) simp_all
  have "fl (2 ^ 53 + 1) = Num (of_int (2 ^ 52) * 2 powi 1)"
    by (rule fl_eval [where e = 53]) (simp_all add: rhe_def Let_def f)
  then show ?thesis by simp
qed

text \<open>A quotient that is not a double: \<open>1 / 3\<close> is rounded to 53 significant bits.\<close>

lemma js_div_rounds: "js_div (Num 1) (Num 3) = Num (6004799503160661 / 18014398509481984)"
proof -
  have f: "\<lfloor>18014398509481984 / 3 :: rat\<rfloor> = 6004799503160661"
    by (rule floor_unique) simp_all
  have "fl (1 / 3) = Num (of_int 6004799503160661 * 2 powi (- 54))"
    by (rule fl_eval [where e = "- 2"]) (simp_all add: rhe_def Let_def f power_int_minus_divide)
  then show ?thesis by (simp add: power_int_minus_divide)
qed

section \<open>Facts about the sort, the sums and the walk\<close>

lemma insert_by_mid: "insert_by by_mid x ys = insort_key mid x ys"
  by (induction ys) (simp_all add: by_mid_def)

lemma array_sort_by_mid: "array_sort by_mid xs = sort_key mid xs"
  by (induction xs) (simp_all add: array_sort_def insert_by_mid)

lemma array_sort_Nil_iff: "array_sort by_mid h = [] \<longleftrightarrow> h = []"
  using length_sort [of mid h] by (simp only: array_sort_by_mid flip: length_0_conv)

lemma totalCount_run: "totalCount ds = runCount (Num 0) ds"
  by (simp add: totalCount_def runCount_def)

lemma totalAmount_run: "totalAmount ds = runAmount (Num 0) ds"
  by (simp add: totalAmount_def runAmount_def)

lemma runCount_simps:
  "runCount cc [] = cc"
  "runCount cc (d # ds) = runCount (js_add cc (Num (count_or_0 d))) ds"
  "runCount cc (xs @ zs) = runCount (runCount cc xs) zs"
  by (simp_all add: runCount_def)

lemma runAmount_simps:
  "runAmount ca [] = ca"
  "runAmount ca (d # ds) = runAmount (js_add ca (js_mul (mid d) (count_or_0 d))) ds"
  "runAmount ca (xs @ zs) = runAmount (runAmount ca xs) zs"
  by (simp_all add: runAmount_def)

lemma length_walk: "length (walk tc ta cc ca ds) = length ds"
  by (induction ds arbitrary: cc ca) (simp_all add: Let_def)

lemma walk_Nil_iff: "walk tc ta cc ca ds = [] \<longleftrightarrow> ds = []"
  by (cases ds) (simp_all add: Let_def)

lemma walk_last:
  "ds \<noteq> [] \<Longrightarrow> last (walk tc ta cc ca ds) =
     \<lparr>p = js_div (runCount cc ds) tc, L = js_div (runAmount ca ds) ta\<rparr>"
proof (induction ds arbitrary: cc ca)
  case Nil
  then show ?case by simp
next
  case (Cons d ds)
  show ?case
  proof (cases "ds = []")
    case True
    then show ?thesis by (simp add: Let_def runCount_simps runAmount_simps)
  next
    case False
    then show ?thesis
      using Cons.IH [OF False]
      by (simp add: Let_def walk_Nil_iff runCount_simps runAmount_simps)
  qed
qed











lemma walk_p:
  "map p (walk tc ta cc ca ds) =
     map (\<lambda>x. js_div x tc) (cumj cc (map (\<lambda>d. Num (count_or_0 d)) ds))"
  by (induction ds arbitrary: cc ca) (simp_all add: Let_def)

lemma walk_L:
  "map L (walk tc ta cc ca ds) =
     map (\<lambda>x. js_div x ta) (cumj ca (map (\<lambda>d. js_mul (mid d) (count_or_0 d)) ds))"
  by (induction ds arbitrary: cc ca) (simp_all add: Let_def)

lemma totalCount_foldl: "totalCount ds = foldl js_add (Num 0) (map (\<lambda>d. Num (count_or_0 d)) ds)"
  by (simp add: totalCount_def foldl_map)

lemma totalAmount_foldl:
  "totalAmount ds = foldl js_add (Num 0) (map (\<lambda>d. js_mul (mid d) (count_or_0 d)) ds)"
  by (simp add: totalAmount_def foldl_map)

lemma foldl_js_add_Infinity:
  "\<forall>v\<in>set vs. nonneg_val v \<Longrightarrow> foldl js_add Infinity vs = Infinity"
proof (induction vs)
  case Nil
  then show ?case by simp
next
  case (Cons v vs)
  then have "nonneg_val v" by simp
  then have "js_add Infinity v = Infinity" by (cases v) (simp_all add: nonneg_val_def)
  with Cons show ?case by simp
qed

lemma cumj_chain:
  assumes "0 \<le> a" and "fl a = Num a" and "\<forall>v\<in>set vs. nonneg_val v"
    and "foldl js_add (Num a) vs = Num T"
  shows "\<exists>rs. cumj (Num a) vs = map Num rs \<and> sorted (a # rs) \<and> (\<forall>r\<in>set (a # rs). r \<le> T)"
  using assms
proof (induction vs arbitrary: a)
  case Nil
  then show ?case by simp
next
  case (Cons v vs)
  have nv: "nonneg_val v" and nvs: "\<forall>v\<in>set vs. nonneg_val v" using Cons.prems(3) by simp_all
  have f: "foldl js_add (js_add (Num a) v) vs = Num T" using Cons.prems(4) by simp
  have notinf: "js_add (Num a) v \<noteq> Infinity"
    using f foldl_js_add_Infinity [OF nvs] by auto
  from nv notinf obtain c where v: "v = Num c" and c: "0 \<le> c"
    by (cases v) (simp_all add: nonneg_val_def)
  have s: "js_add (Num a) v = fl (a + c)" by (simp add: v)
  from fl_nonneg [of "a + c"] Cons.prems(1) c notinf s
  obtain a1 where a1: "fl (a + c) = Num a1" "0 \<le> a1" by auto
  have id: "fl a1 = Num a1" using a1(1) by (rule fl_idem)
  have "js_le (fl a) (fl (a + c))" using c by (intro fl_mono) simp
  then have le: "a \<le> a1" by (simp add: Cons.prems(2) a1(1))
  from Cons.IH [OF a1(2) id nvs] f s a1(1)
  obtain rs where rs: "cumj (Num a1) vs = map Num rs" "sorted (a1 # rs)" "\<forall>r\<in>set (a1 # rs). r \<le> T"
    by auto
  have "cumj (Num a) (v # vs) = map Num (a1 # rs)" by (simp add: s a1(1) rs(1))
  moreover have "sorted (a # a1 # rs)" using le rs(2) by auto
  moreover have "\<forall>r\<in>set (a # a1 # rs). r \<le> T" using le rs(3) by auto
  ultimately show ?case by blast
qed

lemma curve_sorted:
  assumes "\<forall>v\<in>set vs. nonneg_val v" and "foldl js_add (Num 0) vs = Num T" and "0 < T"
  shows "sorted_wrt js_le (Num 0 # map (\<lambda>x. js_div x (Num T)) (cumj (Num 0) vs) @ [Num 1])"
proof -
  from cumj_chain [OF _ fl_0 assms(1,2)]
  obtain rs where rs: "cumj (Num 0) vs = map Num rs" "sorted (0 # rs)" "\<forall>r\<in>set (0 # rs). r \<le> T"
    by auto
  have s: "sorted (0 # rs @ [T])" using rs(2,3) assms(3) by (auto simp: sorted_append)
  have e: "Num 0 # map (\<lambda>x. js_div x (Num T)) (cumj (Num 0) vs) @ [Num 1]
             = map (\<lambda>r. fl (r / T)) (0 # rs @ [T])"
    using assms(3) by (simp add: rs(1) fl_0 fl_1)
  have "sorted_wrt (\<lambda>a b. js_le (fl (a / T)) (fl (b / T))) (0 # rs @ [T])"
    using s assms(3) by (auto elim!: sorted_wrt_mono_rel [rotated] intro!: fl_mono simp: divide_right_mono)
  then show ?thesis unfolding e sorted_wrt_map .
qed

lemma lorenzData_Some:
  "h \<noteq> [] \<Longrightarrow> lorenzData (Some h) =
     \<lparr>p = Num 0, L = Num 0\<rparr> #
       walk (totalCount (array_sort by_mid h)) (totalAmount (array_sort by_mid h)) (Num 0) (Num 0)
         (array_sort by_mid h)
       @ [\<lparr>p = Num 1, L = Num 1\<rparr>]"
  by (simp add: lorenzData_def Let_def)

lemma walk_cong_key:
  "map bucket_key xs = map bucket_key ys \<Longrightarrow> walk tc ta cc ca xs = walk tc ta cc ca ys"
proof (induction xs arbitrary: ys cc ca)
  case Nil
  then show ?case by simp
next
  case (Cons x xs)
  then obtain y ys' where ys: "ys = y # ys'" by (cases ys) auto
  with Cons.prems have t: "bucket_key x = bucket_key y" "map bucket_key xs = map bucket_key ys'"
    by simp_all
  from t(1) have k: "mid x = mid y" "count_or_0 x = count_or_0 y"
    by (simp_all add: bucket_key_def)
  show ?case using Cons.IH [OF t(2)] k ys by (simp add: Let_def)
qed

lemma totalCount_key:
  "totalCount xs = foldl (\<lambda>s k. js_add s (Num (snd k))) (Num 0) (map bucket_key xs)"
  by (simp add: totalCount_def foldl_map bucket_key_def)

lemma totalAmount_key:
  "totalAmount xs = foldl (\<lambda>s k. js_add s (js_mul (fst k) (snd k))) (Num 0) (map bucket_key xs)"
  by (simp add: totalAmount_def foldl_map bucket_key_def)

lemma js_div_by_zero: "\<not> isFinite (js_div x (Num 0))"
  by (cases x) simp_all

lemma js_div_self: "y \<noteq> 0 \<Longrightarrow> js_div (Num y) (Num y) = Num 1"
  by (simp add: fl_1)

lemma sorted_keys:
  assumes "\<forall>a\<in>set h. \<forall>b\<in>set h. mid a = mid b \<longrightarrow> count_or_0 a = count_or_0 b"
  shows "sorted (map bucket_key (sort_key mid h))"
proof -
  have "sorted_wrt (\<lambda>a b. mid a \<le> mid b) (sort_key mid h)"
    using sorted_sort_key [of mid h] by (simp add: sorted_wrt_map)
  then have "sorted_wrt (\<lambda>a b. bucket_key a \<le> bucket_key b) (sort_key mid h)"
  proof (rule sorted_wrt_mono_rel [rotated])
    fix a b
    assume ab: "a \<in> set (sort_key mid h)" "b \<in> set (sort_key mid h)" and le: "mid a \<le> mid b"
    from ab have "a \<in> set h" "b \<in> set h" by simp_all
    with assms have eq: "mid a = mid b \<longrightarrow> count_or_0 a = count_or_0 b" by blast
    show "bucket_key a \<le> bucket_key b"
    proof (cases "mid a = mid b")
      case True
      with eq show ?thesis by (simp add: bucket_key_def less_eq_prod_def)
    next
      case False
      with le have "mid a < mid b" by simp
      then show ?thesis by (simp add: bucket_key_def less_eq_prod_def)
    qed
  qed
  then show ?thesis by (simp add: sorted_wrt_map)
qed

lemma keys_sort:
  assumes "\<forall>a\<in>set h. \<forall>b\<in>set h. mid a = mid b \<longrightarrow> count_or_0 a = count_or_0 b"
  shows "map bucket_key (sort_key mid h) = sort (map bucket_key h)"
  using sorted_keys [OF assms] by (intro properties_for_sort [symmetric]) simp_all

text \<open>The facts that evaluate the derivation on small histograms.\<close>

lemmas js_eval = lorenzData_def array_sort_def by_mid_def totalCount_def totalAmount_def
  count_or_0_def js_mul_def fl_0 fl_1 fl_numeral fl_minus fl_half fl_quarter fl_three_quarters
  Let_def

lemma fl_huge: "fl (2 ^ 1023 * 2) = Infinity"
  by (rule fl_overflow) simp


section \<open>Facts about Promise.all and the refresh\<close>

lemma all_inv_init: "0 < n \<Longrightarrow> all_inv n [] (replicate n None, Pending)"
  by (auto simp add: all_inv_def list_all_iff)

lemma all_inv_step:
  assumes "all_inv n evs s" and "fst ev < n"
  shows "all_inv n (evs @ [ev]) (all_step s ev)"
proof -
  obtain slots res where s: "s = (slots, res)" by (cases s)
  obtain i r where ev: "ev = (i, r)" by (cases ev)
  show ?thesis
  proof (cases res)
    case Pending
    show ?thesis
    proof (cases r)
      case (Inl e)
      then show ?thesis using assms Pending by (auto simp: s ev all_inv_def)
    next
      case (Inr v)
      have len: "length slots = n" and i: "i < n" using assms by (simp_all add: s ev all_inv_def)
      have old: "\<And>j w. j < n \<Longrightarrow> slots ! j = Some w \<Longrightarrow> (j, Inr w) \<in> set evs"
        and inr: "\<forall>ev\<in>set evs. \<exists>v. snd ev = Inr v"
        and filled: "\<forall>ev\<in>set evs. slots ! fst ev \<noteq> None"
        using assms(1) Pending by (auto simp: s all_inv_def)
      have new: "(j, Inr w) \<in> set (evs @ [(i, Inr v)])"
        if "j < n" "slots[i := Some v] ! j = Some w" for j w
      proof (cases "j = i")
        case True
        with that len have "w = v" by simp
        with True show ?thesis by simp
      next
        case False
        with that have "slots ! j = Some w" by simp
        with old that(1) show ?thesis by simp
      qed
      have filled': "\<forall>ev\<in>set (evs @ [(i, Inr v)]). slots[i := Some v] ! fst ev \<noteq> None"
        using filled len i by (auto simp: nth_list_update)
      show ?thesis
        using new filled' inr len
        by (simp add: s ev Pending Inr all_inv_def Let_def)
    qed
  next
    case (Fulfilled vs)
    then show ?thesis using assms by (auto simp: s ev all_inv_def)
  next
    case (Rejected e)
    then show ?thesis using assms by (auto simp: s ev all_inv_def)
  qed
qed

lemma all_inv_run:
  "0 < n \<Longrightarrow> \<forall>ev\<in>set evs. fst ev < n \<Longrightarrow>
   all_inv n evs (foldl all_step (replicate n None, Pending) evs)"
proof (induction evs rule: rev_induct)
  case Nil
  then show ?case by (simp add: all_inv_init)
next
  case (snoc ev evs)
  then show ?case by (simp add: all_inv_step)
qed

lemma promise_all_inv:
  assumes "0 < n" and "\<forall>ev\<in>set evs. fst ev < n"
  shows "\<exists>slots. all_inv n evs (slots, promise_all n evs)"
proof -
  obtain slots res where f: "foldl all_step (replicate n None, Pending) evs = (slots, res)"
    by (cases "foldl all_step (replicate n None, Pending) evs")
  have "promise_all n evs = res" using assms(1) by (simp add: promise_all_def f)
  then show ?thesis using all_inv_run [OF assms] f by auto
qed

text \<open>Each request settles once. Then one rejection among the settlements rejects the whole.\<close>

lemma promise_all_rejects:
  assumes "0 < n" and "\<forall>ev\<in>set evs. fst ev < n" and d: "distinct (map fst evs)"
    and rej: "(i, Inl e) \<in> set evs"
  shows "\<exists>e'. promise_all n evs = Rejected e'"
proof -
  obtain slots where inv: "all_inv n evs (slots, promise_all n evs)"
    using promise_all_inv [OF assms(1,2)] by blast
  have i: "i < n" using assms(2) rej by force
  show ?thesis
  proof (cases "promise_all n evs")
    case Pending
    then have "\<forall>ev\<in>set evs. \<exists>v. snd ev = Inr v" using inv by (simp add: all_inv_def)
    with rej show ?thesis by force
  next
    case (Fulfilled vs)
    then have "list_all (\<lambda>x. x \<noteq> None) slots" "length slots = n"
      and old: "\<And>j w. j < n \<Longrightarrow> slots ! j = Some w \<Longrightarrow> (j, Inr w) \<in> set evs"
      using inv by (simp_all add: all_inv_def)
    then have "slots ! i \<noteq> None" using i by (simp add: list_all_length)
    then obtain w where "slots ! i = Some w" by blast
    then have "(i, Inr w) \<in> set evs" using old i by blast
    from eq_key_imp_eq_value [OF d rej this] show ?thesis by simp
  next
    case (Rejected e')
    then show ?thesis by simp
  qed
qed

lemma promise_all_values:
  assumes "0 < n" and "\<forall>ev\<in>set evs. fst ev < n" and "promise_all n evs = Fulfilled vs"
  shows "length vs = n \<and> (\<forall>i<n. (i, Inr (vs ! i)) \<in> set evs)"
proof -
  obtain slots where inv: "all_inv n evs (slots, Fulfilled vs)"
    using promise_all_inv [OF assms(1,2)] assms(3) by auto
  then have all: "list_all (\<lambda>x. x \<noteq> None) slots" and len: "length slots = n"
    and vs: "vs = map the slots"
    and old: "\<And>j w. j < n \<Longrightarrow> slots ! j = Some w \<Longrightarrow> (j, Inr w) \<in> set evs"
    by (simp_all add: all_inv_def)
  have "(i, Inr (vs ! i)) \<in> set evs" if "i < n" for i
  proof -
    have "slots ! i \<noteq> None" using all len that by (simp add: list_all_length)
    then obtain w where w: "slots ! i = Some w" by blast
    then have "vs ! i = w" using vs len that by simp
    with old [OF that w] show ?thesis by simp
  qed
  then show ?thesis using vs len by simp
qed

lemma promise_all_fulfils:
  assumes "0 < n" and "\<forall>ev\<in>set evs. fst ev < n" and d: "distinct (map fst evs)"
    and all: "\<forall>i<n. \<exists>v. (i, Inr v) \<in> set evs"
  shows "\<exists>vs. promise_all n evs = Fulfilled vs"
proof -
  obtain slots where inv: "all_inv n evs (slots, promise_all n evs)"
    using promise_all_inv [OF assms(1,2)] by blast
  show ?thesis
  proof (cases "promise_all n evs")
    case Pending
    then have filled: "\<forall>ev\<in>set evs. slots ! fst ev \<noteq> None" and len: "length slots = n"
      and notall: "\<not> list_all (\<lambda>x. x \<noteq> None) slots"
      using inv by (simp_all add: all_inv_def)
    have "slots ! i \<noteq> None" if "i < n" for i
    proof -
      from all that obtain v where "(i, Inr v) \<in> set evs" by blast
      with filled show ?thesis by force
    qed
    then have "list_all (\<lambda>x. x \<noteq> None) slots" using len by (simp add: list_all_length)
    with notall show ?thesis by simp
  next
    case (Fulfilled vs)
    then show ?thesis by simp
  next
    case (Rejected e)
    then obtain i where rej: "(i, Inl e) \<in> set evs" using inv by (auto simp: all_inv_def)
    then have "i < n" using assms(2) by force
    with all obtain v where "(i, Inr v) \<in> set evs" by blast
    from eq_key_imp_eq_value [OF d rej this] show ?thesis by simp
  qed
qed

lemma length_refresh_requests: "length refresh_requests = 9"
  by (simp add: refresh_requests_def)

lemma datasets_refreshAll_issue: "datasets (refreshAll_issue st) = datasets st"
  by (simp add: datasets_def refreshAll_issue_def)

lemma requests_refreshAll: "requests (snd (refreshAll evs st)) = requests st @ refresh_requests"
  by (simp add: refreshAll_def refreshAll_resume_def refreshAll_issue_def split: promise.split)

lemma datasets_fulfilled:
  assumes "length vs = 9"
  shows "datasets (snd (refreshAll_resume (Fulfilled vs) st)) = vs"
proof -
  from assms obtain a b c d e f g h i where "vs = [a, b, c, d, e, f, g, h, i]"
    by (auto simp: eval_nat_numeral length_Suc_conv)
  then show ?thesis by (simp add: refreshAll_resume_def datasets_def)
qed

section \<open>Facts about the polling fallback\<close>

lemma startPolling_armed: "truthy (pollRef st) \<Longrightarrow> startPolling st = st"
  by (simp add: startPolling_def)

lemma startPolling_arms:
  "\<not> truthy (pollRef st) \<Longrightarrow>
   startPolling st = st\<lparr>timers := timers st @ [(next_handle st, 5000)],
                        next_handle := next_handle st + 1, pollRef := Some (next_handle st)\<rparr>"
  by (simp add: startPolling_def setInterval_def)

lemma startPolling_twice:
  "0 < next_handle st \<Longrightarrow> startPolling (startPolling st) = startPolling st"
  by (simp add: startPolling_def setInterval_def truthy_def)

lemma poll_inv_startPolling: "poll_inv st \<Longrightarrow> poll_inv (startPolling st)"
  by (auto simp: poll_inv_def startPolling_def setInterval_def truthy_def split: option.splits)

lemma poll_inv_refreshAll_issue: "poll_inv (refreshAll_issue st) = poll_inv st"
  by (simp add: poll_inv_def refreshAll_issue_def split: option.split)

lemma poll_inv_cleanup: "poll_inv st \<Longrightarrow> poll_inv (cleanup st)"
  by (auto simp: poll_inv_def cleanup_def clearInterval_def truthy_def Let_def
      split: option.splits)

lemma poll_inv_step:
  assumes "poll_inv st"
  shows "poll_inv (step st ev)"
proof (cases ev)
  case (Mount ok)
  from assms have 1: "poll_inv (refreshAll_issue (st\<lparr>mounted := True\<rparr>))"
    by (simp add: poll_inv_refreshAll_issue) (simp add: poll_inv_def split: option.splits)
  then have 2: "poll_inv (refreshAll_issue (st\<lparr>mounted := True\<rparr>)\<lparr>ws := Some CONNECTING\<rparr>)"
    by (simp add: poll_inv_def split: option.splits)
  from 1 2 show ?thesis using Mount
    by (simp add: mount_effect_def Let_def poll_inv_startPolling)
next
  case WsOpen
  with assms show ?thesis by (simp add: poll_inv_def split: option.splits)
next
  case WsMessage
  with assms show ?thesis by (simp add: poll_inv_refreshAll_issue split: option.splits)
next
  case WsError
  with assms show ?thesis by (simp add: poll_inv_startPolling split: option.splits)
next
  case WsClose
  from assms have "poll_inv (st\<lparr>ws := Some CLOSED\<rparr>)"
    by (simp add: poll_inv_def split: option.splits)
  with assms WsClose show ?thesis by (simp add: poll_inv_startPolling split: option.splits)
next
  case (Tick h)
  with assms show ?thesis by (simp add: poll_inv_refreshAll_issue)
next
  case Unmount
  with assms show ?thesis by (simp add: poll_inv_cleanup)
qed

lemma poll_inv_run: "poll_inv st \<Longrightarrow> poll_inv (run evs st)"
  unfolding run_def by (induction evs arbitrary: st) (simp_all add: poll_inv_step)

text \<open>
  Whatever happens after the first render, at most one interval timer is ever created, and
  it has period 5000.
\<close>

lemma at_most_one_timer:
  "(timers (run evs initial) = [] \<or> timers (run evs initial) = [(1, 5000)])
   \<and> next_handle (run evs initial) \<le> 2"
proof -
  have "poll_inv initial" by (simp add: poll_inv_def initial_def)
  then have "poll_inv (run evs initial)" by (rule poll_inv_run)
  then show ?thesis by (auto simp: poll_inv_def split: option.splits)
qed

text \<open>A timer that is armed when the cleanup runs is cleared by it.\<close>

lemma cleanup_clears_armed_timer: "poll_inv st \<Longrightarrow> timers (cleanup st) = []"
  by (auto simp: poll_inv_def cleanup_def clearInterval_def truthy_def Let_def
      split: option.splits)

section \<open>Claims\<close>

subsection \<open>C1\<close>

text \<open>
  The claim gives, for the histogram \<open>[{mid:10,count:2},{mid:30,count:2}]\<close>, the curve
  points (0.5, 0.125) and (1, 1) between the anchors. The first of them is not what the
  derivation computes.
\<close>

theorem C1_scenario_counterexample:
  "lorenzData (Some [bk 10 2, bk 30 2]) \<noteq>
     [\<lparr>p = Num 0, L = Num 0\<rparr>, \<lparr>p = Num (1/2), L = Num (1/8)\<rparr>,
      \<lparr>p = Num 1, L = Num 1\<rparr>, \<lparr>p = Num 1, L = Num 1\<rparr>]"
  by (simp add: js_eval)

text \<open>
  C1 (amended). For the input histogram \<open>[{mid:10,count:2},{mid:30,count:2}]\<close> the Lorenz
  derivation computes total count 4 and total amount 80, and the curve points between the
  (0,0) and (1,1) anchors are (0.5, 0.25) followed by (1, 1): the cumulative amount after the
  first bucket is 10 * 2 = 20, and 20 / 80 = 0.25.
\<close>

theorem C1_scenario:
  "totalCount (array_sort by_mid [bk 10 2, bk 30 2]) = Num 4
   \<and> totalAmount (array_sort by_mid [bk 10 2, bk 30 2]) = Num 80
   \<and> lorenzData (Some [bk 10 2, bk 30 2]) =
       [\<lparr>p = Num 0, L = Num 0\<rparr>, \<lparr>p = Num (1/2), L = Num (1/4)\<rparr>,
        \<lparr>p = Num 1, L = Num 1\<rparr>, \<lparr>p = Num 1, L = Num 1\<rparr>]"
  by (simp add: js_eval)

subsection \<open>C2\<close>

text \<open>
  The claim asks only for positive totals. With a negative midpoint the totals can be
  positive while the cumulative amount first falls: for \<open>[{mid:-1,count:1},{mid:3,count:1}]\<close>
  the \<open>L\<close> coordinates are 0, -1/2, 1, 1. And a positive total need not be finite: for
  \<open>[{mid:2^1023,count:2}]\<close> the amount overflows, the total amount is \<open>Infinity\<close>, and the
  \<open>L\<close> coordinates are 0, \<open>NaN\<close>, 1.
\<close>

theorem C2_monotone_counterexample:
  "[bk (-1) 1, bk 3 1] \<noteq> []
   \<and> js_lt (Num 0) (totalCount (array_sort by_mid [bk (-1) 1, bk 3 1]))
   \<and> js_lt (Num 0) (totalAmount (array_sort by_mid [bk (-1) 1, bk 3 1]))
   \<and> \<not> sorted_wrt js_le (map L (lorenzData (Some [bk (-1) 1, bk 3 1])))
   \<and> [bk (2 ^ 1023) 2] \<noteq> []
   \<and> js_lt (Num 0) (totalCount (array_sort by_mid [bk (2 ^ 1023) 2]))
   \<and> js_lt (Num 0) (totalAmount (array_sort by_mid [bk (2 ^ 1023) 2]))
   \<and> map L (lorenzData (Some [bk (2 ^ 1023) 2])) = [Num 0, NaN, Num 1]
   \<and> \<not> sorted_wrt js_le (map L (lorenzData (Some [bk (2 ^ 1023) 2])))"
  using fl_huge by (simp add: js_eval)

text \<open>
  C2 (amended). For every non-empty histogram whose total count and total amount are both
  positive and finite and in which every bucket has a non-negative count and a non-negative
  amount (midpoint times count), the output of the Lorenz derivation is monotonically
  non-decreasing in both coordinates, starts at the point (0,0), ends at the point (1,1),
  and has length equal to the input length plus 2.
\<close>

theorem C2_monotone:
  assumes "h \<noteq> []"
    and "isFinite (totalCount (array_sort by_mid h))"
    and "js_lt (Num 0) (totalCount (array_sort by_mid h))"
    and "isFinite (totalAmount (array_sort by_mid h))"
    and "js_lt (Num 0) (totalAmount (array_sort by_mid h))"
    and "\<forall>d\<in>set h. 0 \<le> count_or_0 d \<and> 0 \<le> mid d * count_or_0 d"
  shows "sorted_wrt js_le (map p (lorenzData (Some h)))
       \<and> sorted_wrt js_le (map L (lorenzData (Some h)))
       \<and> hd (lorenzData (Some h)) = \<lparr>p = Num 0, L = Num 0\<rparr>
       \<and> last (lorenzData (Some h)) = \<lparr>p = Num 1, L = Num 1\<rparr>
       \<and> length (lorenzData (Some h)) = length h + 2"
proof -
  let ?s = "array_sort by_mid h"
  have set_s: "set ?s = set h" by (simp add: array_sort_by_mid)
  from assms(2,3) obtain T where T: "totalCount ?s = Num T" "0 < T"
    by (cases "totalCount ?s") simp_all
  from assms(4,5) obtain A where A: "totalAmount ?s = Num A" "0 < A"
    by (cases "totalAmount ?s") simp_all
  have c: "\<forall>v\<in>set (map (\<lambda>d. Num (count_or_0 d)) ?s). nonneg_val v"
    using assms(6) set_s by (auto simp: nonneg_val_def)
  have a: "\<forall>v\<in>set (map (\<lambda>d. js_mul (mid d) (count_or_0 d)) ?s). nonneg_val v"
  proof -
    have "nonneg_val (js_mul (mid d) (count_or_0 d))" if "d \<in> set h" for d
      using fl_nonneg [of "mid d * count_or_0 d"] assms(6) that
      by (auto simp: js_mul_def nonneg_val_def)
    then show ?thesis using set_s by auto
  qed
  have 1: "sorted_wrt js_le (map p (lorenzData (Some h)))"
    using curve_sorted [OF c T(1) [unfolded totalCount_foldl] T(2)]
    by (simp add: lorenzData_Some [OF assms(1)] walk_p T(1))
  have 2: "sorted_wrt js_le (map L (lorenzData (Some h)))"
    using curve_sorted [OF a A(1) [unfolded totalAmount_foldl] A(2)]
    by (simp add: lorenzData_Some [OF assms(1)] walk_L A(1))
  have 3: "length (lorenzData (Some h)) = length h + 2"
    by (simp add: lorenzData_Some [OF assms(1)] length_walk array_sort_by_mid)
  show ?thesis using 1 2 3 by (simp add: lorenzData_Some [OF assms(1)])
qed

theorem C2_monotone_witness:
  "[bk 30 2, bk 10 2] \<noteq> []
   \<and> totalCount (array_sort by_mid [bk 30 2, bk 10 2]) = Num 4
   \<and> totalAmount (array_sort by_mid [bk 30 2, bk 10 2]) = Num 80
   \<and> sorted_wrt js_le (map p (lorenzData (Some [bk 30 2, bk 10 2])))
   \<and> sorted_wrt js_le (map L (lorenzData (Some [bk 30 2, bk 10 2])))
   \<and> hd (lorenzData (Some [bk 30 2, bk 10 2])) = \<lparr>p = Num 0, L = Num 0\<rparr>
   \<and> last (lorenzData (Some [bk 30 2, bk 10 2])) = \<lparr>p = Num 1, L = Num 1\<rparr>
   \<and> length (lorenzData (Some [bk 30 2, bk 10 2])) = length [bk 30 2, bk 10 2] + 2"
proof -
  have t: "totalCount (array_sort by_mid [bk 30 2, bk 10 2]) = Num 4"
    "totalAmount (array_sort by_mid [bk 30 2, bk 10 2]) = Num 80"
    by (simp_all add: js_eval)
  have h: "\<forall>d\<in>set [bk 30 2, bk 10 2]. 0 \<le> count_or_0 d \<and> 0 \<le> mid d * count_or_0 d"
    by (simp add: count_or_0_def)
  from C2_monotone [OF _ _ _ _ _ h] t show ?thesis by simp
qed

subsection \<open>C3\<close>

text \<open>
  The sort compares midpoints only and is stable, so two buckets with the same midpoint
  and different counts stay in the order of the input, and the curve depends on that order.
\<close>

theorem C3_permutation_counterexample:
  "mset [bk 1 3, bk 1 1] = mset [bk 1 1, bk 1 3]
   \<and> lorenzData (Some [bk 1 3, bk 1 1]) \<noteq> lorenzData (Some [bk 1 1, bk 1 3])"
  by (simp add: js_eval)

text \<open>
  C3 (amended). For every histogram in which buckets with equal midpoints have equal counts
  (in particular, every histogram with pairwise distinct midpoints) and every permutation
  of its buckets, applying the Lorenz derivation to the permuted histogram produces the
  same curve as applying it to the original.
\<close>

theorem C3_permutation:
  assumes "mset h' = mset h"
    and "\<forall>a\<in>set h. \<forall>b\<in>set h. mid a = mid b \<longrightarrow> count_or_0 a = count_or_0 b"
  shows "lorenzData (Some h') = lorenzData (Some h)"
proof (cases "h = []")
  case True
  then show ?thesis using assms(1) by simp
next
  case False
  then have ne': "h' \<noteq> []" using assms(1) by auto
  have se: "set h' = set h" using assms(1) by (rule mset_eq_setD)
  have a': "\<forall>a\<in>set h'. \<forall>b\<in>set h'. mid a = mid b \<longrightarrow> count_or_0 a = count_or_0 b"
    unfolding se by (rule assms(2))
  have "sort (map bucket_key h') = sort (map bucket_key h)"
    using assms(1) by (intro properties_for_sort) simp_all
  then have k: "map bucket_key (array_sort by_mid h') = map bucket_key (array_sort by_mid h)"
    by (simp only: array_sort_by_mid keys_sort [OF a'] keys_sort [OF assms(2)])
  have tc: "totalCount (array_sort by_mid h') = totalCount (array_sort by_mid h)"
    by (simp only: totalCount_key k)
  have ta: "totalAmount (array_sort by_mid h') = totalAmount (array_sort by_mid h)"
    by (simp only: totalAmount_key k)
  show ?thesis
    by (simp only: lorenzData_Some [OF False] lorenzData_Some [OF ne'] tc ta walk_cong_key [OF k])
qed

theorem C3_permutation_witness:
  "mset [bk 30 2, bk 10 5, bk 30 2] = mset [bk 30 2, bk 30 2, bk 10 5]
   \<and> lorenzData (Some [bk 30 2, bk 10 5, bk 30 2]) = lorenzData (Some [bk 30 2, bk 30 2, bk 10 5])"
  using C3_permutation [of "[bk 30 2, bk 10 5, bk 30 2]" "[bk 30 2, bk 30 2, bk 10 5]"]
  by simp

subsection \<open>C4\<close>

text \<open>
  C4. The derivation divides the cumulative count by the total count and the cumulative
  amount by the total amount without a guard against a zero divisor: for a non-empty
  histogram whose total count or total amount is zero (the all-zero histogram is one) the
  division by zero is reached and the output contains a non-finite value.
\<close>

theorem C4_division_by_zero:
  assumes "h \<noteq> []"
    and "totalCount (array_sort by_mid h) = Num 0 \<or> totalAmount (array_sort by_mid h) = Num 0"
  shows "\<exists>pt\<in>set (lorenzData (Some h)). \<not> isFinite (p pt) \<or> \<not> isFinite (L pt)"
proof -
  let ?s = "array_sort by_mid h"
  let ?w = "walk (totalCount ?s) (totalAmount ?s) (Num 0) (Num 0) ?s"
  obtain d ds where s: "?s = d # ds"
    using assms(1) array_sort_Nil_iff [of h] by (cases ?s) auto
  have "hd ?w \<in> set (lorenzData (Some h))"
    by (simp add: lorenzData_Some [OF assms(1)] s Let_def)
  moreover have "\<not> isFinite (p (hd ?w)) \<or> \<not> isFinite (L (hd ?w))"
    using assms(2) js_div_by_zero by (auto simp: s Let_def)
  ultimately show ?thesis by blast
qed

theorem C4_division_by_zero_witness:
  "[bk 5 0, bk 7 0] \<noteq> []
   \<and> totalCount (array_sort by_mid [bk 5 0, bk 7 0]) = Num 0
   \<and> (\<exists>pt\<in>set (lorenzData (Some [bk 5 0, bk 7 0])). \<not> isFinite (p pt) \<or> \<not> isFinite (L pt))
   \<and> lorenzData (Some [bk 5 0, bk 7 0]) =
       [\<lparr>p = Num 0, L = Num 0\<rparr>, \<lparr>p = NaN, L = NaN\<rparr>, \<lparr>p = NaN, L = NaN\<rparr>, \<lparr>p = Num 1, L = Num 1\<rparr>]"
  using C4_division_by_zero [of "[bk 5 0, bk 7 0]"]
  by (simp add: js_eval)

subsection \<open>C5\<close>

text \<open>
  C5. For the empty histogram the derivation returns the empty sequence: neither the
  (0,0) nor the (1,1) anchor is added.
\<close>

theorem C5_empty_histogram: "lorenzData (Some []) = []"
  by (simp add: lorenzData_def)

subsection \<open>C6\<close>

text \<open>
  C6. A refresh issues all nine dataset requests at once and is fulfilled only when every
  one of them is; if any one of the nine fetches fails, the whole refresh fails and none of
  the nine datasets of the view state is updated: the state is unchanged on error (the log
  of issued requests apart). Here \<open>evs\<close> is any arrival of settlements in which each of
  the nine requests settles at most once. After a fulfilment every dataset holds the value
  its own request was fulfilled with.
\<close>

theorem C6_refresh_all_or_nothing:
  assumes "distinct (map fst evs)" and "\<forall>ev\<in>set evs. fst ev < 9"
  shows "requests (snd (refreshAll evs st)) = requests st @ refresh_requests
       \<and> length refresh_requests = 9
       \<and> ((\<exists>i e. (i, Inl e) \<in> set evs) \<longrightarrow>
             (\<exists>e. fst (refreshAll evs st) = Rejected e)
             \<and> snd (refreshAll evs st) = refreshAll_issue st
             \<and> datasets (snd (refreshAll evs st)) = datasets st)
       \<and> (fst (refreshAll evs st) = Fulfilled () \<longleftrightarrow> (\<forall>i<9. \<exists>v. (i, Inr v) \<in> set evs))
       \<and> (fst (refreshAll evs st) = Fulfilled () \<longrightarrow>
             (\<forall>i<9. (i, Inr (datasets (snd (refreshAll evs st)) ! i)) \<in> set evs))"
proof -
  let ?r = "promise_all 9 evs"
  have n: "(0::nat) < 9" by simp
  have ra: "refreshAll evs st = refreshAll_resume ?r (refreshAll_issue st)"
    by (simp add: refreshAll_def length_refresh_requests)
  have 1: "(\<exists>e. fst (refreshAll evs st) = Rejected e)
             \<and> snd (refreshAll evs st) = refreshAll_issue st
             \<and> datasets (snd (refreshAll evs st)) = datasets st"
    if "\<exists>i e. (i, Inl e) \<in> set evs"
  proof -
    from that obtain i e where "(i, Inl e) \<in> set evs" by blast
    from promise_all_rejects [OF n assms(2,1) this] obtain e' where "?r = Rejected e'" by blast
    then show ?thesis by (simp add: ra refreshAll_resume_def datasets_refreshAll_issue)
  qed
  have 2: "fst (refreshAll evs st) = Fulfilled () \<longleftrightarrow> (\<forall>i<9. \<exists>v. (i, Inr v) \<in> set evs)"
  proof
    assume "fst (refreshAll evs st) = Fulfilled ()"
    then obtain vs where "?r = Fulfilled vs"
      by (cases ?r) (simp_all add: ra refreshAll_resume_def)
    from promise_all_values [OF n assms(2) this] show "\<forall>i<9. \<exists>v. (i, Inr v) \<in> set evs" by blast
  next
    assume "\<forall>i<9. \<exists>v. (i, Inr v) \<in> set evs"
    from promise_all_fulfils [OF n assms(2,1) this] obtain vs where "?r = Fulfilled vs" by blast
    then show "fst (refreshAll evs st) = Fulfilled ()" by (simp add: ra refreshAll_resume_def)
  qed
  have 3: "\<forall>i<9. (i, Inr (datasets (snd (refreshAll evs st)) ! i)) \<in> set evs"
    if "fst (refreshAll evs st) = Fulfilled ()"
  proof -
    from that obtain vs where vs: "?r = Fulfilled vs"
      by (cases ?r) (simp_all add: ra refreshAll_resume_def)
    from promise_all_values [OF n assms(2) this]
    have l: "length vs = 9" and v: "\<forall>i<9. (i, Inr (vs ! i)) \<in> set evs" by simp_all
    show ?thesis using v by (simp only: ra vs datasets_fulfilled [OF l])
  qed
  show ?thesis using 1 2 3 requests_refreshAll length_refresh_requests by blast
qed

theorem C6_refresh_all_or_nothing_witness:
  "distinct (map fst [(0::nat, Inr (JNum 1)), (8, Inl Timeout), (1, Inr JNull)])
   \<and> (\<exists>e. fst (refreshAll [(0, Inr (JNum 1)), (8, Inl Timeout), (1, Inr JNull)] initial) = Rejected e)
   \<and> datasets (snd (refreshAll [(0, Inr (JNum 1)), (8, Inl Timeout), (1, Inr JNull)] initial))
        = datasets initial
   \<and> requests (snd (refreshAll [(0, Inr (JNum 1)), (8, Inl Timeout), (1, Inr JNull)] initial))
        = requests initial @ refresh_requests"
proof -
  let ?evs = "[(0::nat, Inr (JNum 1)), (8, Inl Timeout), (1, Inr JNull)] :: settlement list"
  have d: "distinct (map fst ?evs)" by simp
  have b: "\<forall>ev\<in>set ?evs. fst ev < 9" by simp
  have r: "\<exists>i e. (i, Inl e) \<in> set ?evs" by (intro exI [of _ 8] exI [of _ Timeout]) simp
  from C6_refresh_all_or_nothing [OF d b, of initial] r d b show ?thesis by blast
qed

subsection \<open>C7\<close>

text \<open>
  C7. When the push channel errors or closes, polling begins exactly once, and the armed
  timer re-runs the full refresh every 5000 ms until unmount. The guard of \<open>startPolling\<close>
  does keep the number of timers at one (\<open>at_most_one_timer\<close>), and a timer armed before
  the unmount is cleared by the cleanup (\<open>cleanup_clears_armed_timer\<close>). But the cleanup
  closes a socket whose \<open>onclose\<close> handler is still attached: when the component unmounts
  while the channel is live, the close event that follows arms the timer after the
  cleanup has run, nothing clears it any more, and its ticks go on refreshing. The
  theorem runs this trace: mounted and live with no timer; then unmount and close; then
  a timer of period 5000 is active on the unmounted component, and its tick issues the nine
  requests.
\<close>

theorem C7_timer_armed_after_unmount:
  "mounted (run [Mount True, WsOpen] initial)
   \<and> timers (run [Mount True, WsOpen] initial) = []
   \<and> \<not> mounted (run [Mount True, WsOpen, Unmount, WsClose] initial)
   \<and> timers (run [Mount True, WsOpen, Unmount, WsClose] initial) = [(1, 5000)]
   \<and> requests (run [Mount True, WsOpen, Unmount, WsClose, Tick 1] initial)
        = requests (run [Mount True, WsOpen, Unmount, WsClose] initial) @ refresh_requests"
  by (simp add: run_def initial_def mount_effect_def refreshAll_issue_def cleanup_def ws_close_def
      startPolling_def setInterval_def truthy_def Let_def)

subsection \<open>C8\<close>

text \<open>
  C8. When no file is selected, triggering the upload action issues no network request and
  leaves all state unchanged: the upload handler returns at once if the file state is null,
  and the upload control is disabled.
\<close>

theorem C8_upload_without_file:
  assumes "file' st = None"
  shows "upload_disabled st
       \<and> onUpload up evs st = (Fulfilled (), st)
       \<and> requests (snd (onUpload up evs st)) = requests st
       \<and> click_upload up evs st = st"
  using assms by (simp add: upload_disabled_def onUpload_def click_upload_def)

theorem C8_upload_without_file_witness:
  "file' initial = None
   \<and> upload_disabled initial
   \<and> onUpload (Fulfilled JNull) [] initial = (Fulfilled (), initial)
   \<and> requests (snd (onUpload (Fulfilled JNull) [] initial)) = requests initial
   \<and> click_upload (Fulfilled JNull) [] initial = initial"
  using C8_upload_without_file [of initial "Fulfilled JNull" "[]"] by (simp add: initial_def)

subsection \<open>C9\<close>

text \<open>
  The claim asks for nonzero totals, and \<open>Infinity\<close> is not zero. For
  \<open>[{mid:2^1023,count:2}]\<close> the total count is 2 and the total amount is \<open>Infinity\<close>; the last
  point of the walk is (1, \<open>NaN\<close>), since \<open>Infinity / Infinity\<close> is \<open>NaN\<close>, and the appended
  anchor does not repeat it.
\<close>

theorem C9_last_point_counterexample:
  "[bk (2 ^ 1023) 2] \<noteq> []
   \<and> totalCount (array_sort by_mid [bk (2 ^ 1023) 2]) = Num 2
   \<and> totalAmount (array_sort by_mid [bk (2 ^ 1023) 2]) = Infinity
   \<and> lorenzData (Some [bk (2 ^ 1023) 2]) =
       [\<lparr>p = Num 0, L = Num 0\<rparr>, \<lparr>p = Num 1, L = NaN\<rparr>, \<lparr>p = Num 1, L = Num 1\<rparr>]"
  using fl_huge by (simp add: js_eval)

text \<open>
  C9 (amended). For every non-empty histogram with finite nonzero total count and finite
  nonzero total amount, the last point produced by the cumulative walk is already exactly
  (1,1) (at the final bucket the running sums are the totals, \<open>walk_last\<close>, and a finite
  nonzero double divided by itself is 1), so the final two points of the output are both
  (1,1): the appended anchor duplicates the last computed point.
\<close>

theorem C9_last_point_duplicated:
  assumes "h \<noteq> []"
    and "isFinite (totalCount (array_sort by_mid h))"
    and "totalCount (array_sort by_mid h) \<noteq> Num 0"
    and "isFinite (totalAmount (array_sort by_mid h))"
    and "totalAmount (array_sort by_mid h) \<noteq> Num 0"
  shows "\<exists>pts. walk (totalCount (array_sort by_mid h)) (totalAmount (array_sort by_mid h))
                 (Num 0) (Num 0) (array_sort by_mid h)
              = pts @ [\<lparr>p = Num 1, L = Num 1\<rparr>]
          \<and> lorenzData (Some h)
              = \<lparr>p = Num 0, L = Num 0\<rparr> # pts @ [\<lparr>p = Num 1, L = Num 1\<rparr>, \<lparr>p = Num 1, L = Num 1\<rparr>]"
proof -
  let ?s = "array_sort by_mid h"
  let ?w = "walk (totalCount ?s) (totalAmount ?s) (Num 0) (Num 0) ?s"
  have ne: "?s \<noteq> []" using assms(1) by (simp add: array_sort_Nil_iff)
  then have wne: "?w \<noteq> []" by (simp add: walk_Nil_iff)
  from assms(2,3) obtain T where T: "totalCount ?s = Num T" "T \<noteq> 0"
    by (cases "totalCount ?s") simp_all
  from assms(4,5) obtain A where A: "totalAmount ?s = Num A" "A \<noteq> 0"
    by (cases "totalAmount ?s") simp_all
  have "last ?w = \<lparr>p = js_div (totalCount ?s) (totalCount ?s), L = js_div (totalAmount ?s) (totalAmount ?s)\<rparr>"
    by (simp only: walk_last [OF ne] totalCount_run totalAmount_run)
  then have "last ?w = \<lparr>p = Num 1, L = Num 1\<rparr>"
    by (simp only: T(1) A(1) js_div_self [OF T(2)] js_div_self [OF A(2)])
  with wne have "?w = butlast ?w @ [\<lparr>p = Num 1, L = Num 1\<rparr>]"
    by (metis append_butlast_last_id)
  then show ?thesis
    using lorenzData_Some [OF assms(1)] by (intro exI [of _ "butlast ?w"]) simp
qed

theorem C9_last_point_duplicated_witness:
  "[bk 30 2, bk 10 5] \<noteq> []
   \<and> totalCount (array_sort by_mid [bk 30 2, bk 10 5]) = Num 7
   \<and> totalAmount (array_sort by_mid [bk 30 2, bk 10 5]) = Num 110
   \<and> (\<exists>pts. lorenzData (Some [bk 30 2, bk 10 5])
              = \<lparr>p = Num 0, L = Num 0\<rparr> # pts @ [\<lparr>p = Num 1, L = Num 1\<rparr>, \<lparr>p = Num 1, L = Num 1\<rparr>])"
proof -
  have t: "totalCount (array_sort by_mid [bk 30 2, bk 10 5]) = Num 7"
    "totalAmount (array_sort by_mid [bk 30 2, bk 10 5]) = Num 110"
    by (simp_all add: js_eval)
  from C9_last_point_duplicated [of "[bk 30 2, bk 10 5]"] t show ?thesis by auto
qed

subsection \<open>C10\<close>



end
